theory Spec2Isabelle
  imports Main
begin

section \<open>Recurring events of the events calendar\<close>

text \<open>
  The recurrence engine of the events-calendar module, as listed in
  \<^verbatim>\<open>src/events-calendar/README.md\<close>: the data model of a base event and its
  recurrence pattern, and \<^verbatim>\<open>generateRecurringEvents\<close>, which materialises the
  occurrences of one base event inside a query range.
\<close>

subsection \<open>Data model\<close>

text \<open>
  A JavaScript \<^verbatim>\<open>Date\<close> is compared through its time value, the number of milliseconds
  since 1970-01-01T00:00:00Z. The listing copies every date it keeps
  (\<^verbatim>\<open>new Date(baseEvent.startDate)\<close>, \<^verbatim>\<open>new Date(currentDate)\<close>), so a date is
  modelled by its time value.

  \<^verbatim>\<open>new mongoose.Types.ObjectId()\<close> belongs to a library outside the repository. Its
  contract is that every call yields an id that has not been issued before; the
  model numbers the ids in the order of issue, and the state of the generator is
  the number of the next id.
\<close>

type_synonym date = int
type_synonym objectId = nat

datatype RecurrenceFrequency = DAILY | WEEKLY | MONTHLY

text \<open>\<^verbatim>\<open>export enum DayOfWeek { MONDAY = 1, ..., SUNDAY = 7 }\<close>\<close>

datatype DayOfWeek = MONDAY | TUESDAY | WEDNESDAY | THURSDAY | FRIDAY | SATURDAY | SUNDAY

text \<open>
  \<^verbatim>\<open>interface RecurrencePattern\<close>. The fields marked \<^verbatim>\<open>?\<close> are optional. \<^verbatim>\<open>interval\<close> is
  declared a plain \<^verbatim>\<open>number\<close>; it is optional here as well, because the rule for a
  missing interval is part of what is verified below.
\<close>

record RecurrencePattern =
  frequency :: RecurrenceFrequency
  interval :: "int option"
  daysOfWeek :: "DayOfWeek list option"
  endDate :: "date option"
  maxOccurrences :: "int option"

text \<open>
  Modelled from the spec: the entity declaration of the base event document is
  not part of the listing; the fields are those of the data model of the
  specification (BaseEvent). The source's field \<^verbatim>\<open>_id\<close> is written \<open>doc_id\<close>.
\<close>

record EventsCalendar =
  doc_id :: objectId
  userId :: objectId
  title :: string
  description :: string
  location :: string
  category :: string
  color :: string
  startDate :: date
  duration :: int
  recurrence :: "RecurrencePattern option"
  isRecurringInstance :: bool

text \<open>An occurrence is the spread of the base event plus \<^verbatim>\<open>parentEventId\<close>.\<close>

record Occurrence = EventsCalendar +
  parentEventId :: objectId

subsection \<open>Instance generation\<close>

text \<open>
  The object literal of the loop body:
  \<^verbatim>\<open>{ ...baseEvent.toObject(), _id: new mongoose.Types.ObjectId(),
     startDate: new Date(currentDate), isRecurringInstance: true,
     parentEventId: baseEvent._id }\<close>
\<close>

definition newObjectId :: "nat \<Rightarrow> objectId \<times> nat" where
  "newObjectId g = (g, Suc g)"

definition occurrenceEvent :: "EventsCalendar \<Rightarrow> objectId \<Rightarrow> date \<Rightarrow> Occurrence" where
  "occurrenceEvent baseEvent newId currentDate =
     \<lparr> doc_id = newId,
       userId = userId baseEvent,
       title = title baseEvent,
       description = description baseEvent,
       location = location baseEvent,
       category = category baseEvent,
       color = color baseEvent,
       startDate = currentDate,
       duration = duration baseEvent,
       recurrence = recurrence baseEvent,
       isRecurringInstance = True,
       parentEventId = doc_id baseEvent \<rparr>"

text \<open>
  The state of the loop: the locals that change (\<^verbatim>\<open>currentDate\<close>,
  \<^verbatim>\<open>occurrenceCount\<close>, \<^verbatim>\<open>events\<close>), the object the parameter \<^verbatim>\<open>baseEvent\<close> refers to
  (it is passed by reference and read again in every iteration), and the state
  of the id generator.
\<close>

record loopState =
  currentDate :: date
  occurrenceCount :: int
  events :: "Occurrence list"
  baseEventObj :: EventsCalendar
  objectIds :: nat

text \<open>
  \<^verbatim>\<open>while (currentDate <= maxDate && currentDate <= rangeEnd &&
          occurrenceCount < maxOccurrences)\<close>
\<close>

definition loopCond :: "date \<Rightarrow> date \<Rightarrow> int \<Rightarrow> loopState \<Rightarrow> bool" where
  "loopCond maxDate rangeEnd maxOcc s \<longleftrightarrow>
     currentDate s \<le> maxDate \<and> currentDate s \<le> rangeEnd \<and> occurrenceCount s < maxOcc"

text \<open>
  The loop body. The two helpers \<^verbatim>\<open>this.shouldCreateOccurrence\<close> and
  \<^verbatim>\<open>this.getNextOccurrenceDate\<close> are called but not listed; they are the parameters
  \<open>should\<close> and \<open>nxt\<close>.
\<close>

definition loopBody ::
  "(date \<Rightarrow> RecurrencePattern \<Rightarrow> bool) \<Rightarrow> (date \<Rightarrow> RecurrencePattern \<Rightarrow> date) \<Rightarrow>
   RecurrencePattern \<Rightarrow> date \<Rightarrow> loopState \<Rightarrow> loopState" where
  "loopBody should nxt rec rangeStart s =
     (let s1 =
        (if currentDate s \<ge> rangeStart then
           (if should (currentDate s) rec then
              (let (newId, g) = newObjectId (objectIds s);
                   occurrence = occurrenceEvent (baseEventObj s) newId (currentDate s)
               in s\<lparr> events := events s @ [occurrence],
                     occurrenceCount := occurrenceCount s + 1,
                     objectIds := g \<rparr>)
            else s)
         else s)
      in s1\<lparr> currentDate := nxt (currentDate s1) rec \<rparr>)"

text \<open>A \<^verbatim>\<open>while\<close> loop; a loop that never stops has the value \<open>None\<close>.\<close>

partial_function (option) whileLoop :: "('s \<Rightarrow> bool) \<Rightarrow> ('s \<Rightarrow> 's) \<Rightarrow> 's \<Rightarrow> 's option" where
  [code]:
  "whileLoop cond body s = (if cond s then whileLoop cond body (body s) else Some s)"

datatype error = TypeError

text \<open>
  What a call leaves behind: the returned array, the base event object after the
  call, and the state of the id generator after the call.
\<close>

record expansion =
  returned :: "Occurrence list"
  baseEventAfter :: EventsCalendar
  objectIdsAfter :: nat

text \<open>
  \<^verbatim>\<open>generateRecurringEvents(baseEvent, rangeStart, rangeEnd)\<close>.

  \<^item> \<^verbatim>\<open>recurrence.endDate\<close> on a base event without recurrence throws a TypeError.
  \<^item> \<^verbatim>\<open>recurrence.endDate || rangeEnd\<close>: a Date object is truthy, so the end date is
    taken whenever it is set.
  \<^item> \<^verbatim>\<open>recurrence.maxOccurrences || 100\<close>: \<^verbatim>\<open>undefined\<close> and \<^verbatim>\<open>0\<close> are falsy, every
    other number is kept (a negative one too).
  \<^item> The listing ends with the loop; the caller spreads the value of the call
    (\<^verbatim>\<open>allEvents.push(...recurringEvents)\<close>), which is the array \<^verbatim>\<open>events\<close>.
\<close>

definition generateRecurringEvents ::
  "(date \<Rightarrow> RecurrencePattern \<Rightarrow> bool) \<Rightarrow> (date \<Rightarrow> RecurrencePattern \<Rightarrow> date) \<Rightarrow>
   nat \<Rightarrow> EventsCalendar \<Rightarrow> date \<Rightarrow> date \<Rightarrow> (error + expansion) option" where
  "generateRecurringEvents should nxt g baseEvent rangeStart rangeEnd =
     (case recurrence baseEvent of
        None \<Rightarrow> Some (Inl TypeError)
      | Some rec \<Rightarrow>
          (let maxDate = (case endDate rec of Some e \<Rightarrow> e | None \<Rightarrow> rangeEnd);
               maxOcc = (case maxOccurrences rec of
                           None \<Rightarrow> 100
                         | Some n \<Rightarrow> if n = 0 then 100 else n)
           in map_option
                (\<lambda>s. Inr \<lparr> returned = events s,
                           baseEventAfter = baseEventObj s,
                           objectIdsAfter = objectIds s \<rparr>)
                (whileLoop (loopCond maxDate rangeEnd maxOcc)
                           (loopBody should nxt rec rangeStart)
                           \<lparr> currentDate = startDate baseEvent,
                             occurrenceCount = 0,
                             events = [],
                             baseEventObj = baseEvent,
                             objectIds = g \<rparr>)))"

text \<open>
  The two stop conditions and the initial state of the loop, named for the
  proofs: \<^verbatim>\<open>maxDate\<close>, \<^verbatim>\<open>maxOccurrences\<close> and the values of the locals before the loop.
\<close>

definition maxDateOf :: "RecurrencePattern \<Rightarrow> date \<Rightarrow> date" where
  "maxDateOf rec rangeEnd = (case endDate rec of Some e \<Rightarrow> e | None \<Rightarrow> rangeEnd)"

definition maxOccurrencesOf :: "RecurrencePattern \<Rightarrow> int" where
  "maxOccurrencesOf rec =
     (case maxOccurrences rec of None \<Rightarrow> 100 | Some n \<Rightarrow> if n = 0 then 100 else n)"

definition initialState :: "nat \<Rightarrow> EventsCalendar \<Rightarrow> loopState" where
  "initialState g baseEvent =
     \<lparr> currentDate = startDate baseEvent, occurrenceCount = 0, events = [],
       baseEventObj = baseEvent, objectIds = g \<rparr>"

subsection \<open>Calendar arithmetic (UTC)\<close>

text \<open>
  The calendar the helpers need: day number and time of day of a time value, the
  weekday (1970-01-01 was a Thursday), and the conversion between day numbers and
  civil dates of the proleptic Gregorian calendar. Months are numbered from 0, as
  \<^verbatim>\<open>Date.getUTCMonth\<close> does.
\<close>

definition msPerDay :: int where
  "msPerDay = 86400000"

definition dayNumber :: "date \<Rightarrow> int" where
  "dayNumber t = t div msPerDay"

definition timeOfDay :: "date \<Rightarrow> int" where
  "timeOfDay t = t mod msPerDay"

definition weekdayOf :: "date \<Rightarrow> DayOfWeek" where
  "weekdayOf t =
     [THURSDAY, FRIDAY, SATURDAY, SUNDAY, MONDAY, TUESDAY, WEDNESDAY] ! nat (dayNumber t mod 7)"

definition isLeapYear :: "int \<Rightarrow> bool" where
  "isLeapYear y \<longleftrightarrow> (y mod 4 = 0 \<and> y mod 100 \<noteq> 0) \<or> y mod 400 = 0"

definition daysInYear :: "int \<Rightarrow> int" where
  "daysInYear y = (if isLeapYear y then 366 else 365)"

definition daysInMonth :: "int \<Rightarrow> nat \<Rightarrow> int" where
  "daysInMonth y m =
     (if m = 1 then (if isLeapYear y then 29 else 28)
      else if m = 3 \<or> m = 5 \<or> m = 8 \<or> m = 10 then 30 else 31)"

fun daysBeforeMonth :: "int \<Rightarrow> nat \<Rightarrow> int" where
  "daysBeforeMonth y 0 = 0"
| "daysBeforeMonth y (Suc m) = daysBeforeMonth y m + daysInMonth y m"

definition leapYearsThrough :: "int \<Rightarrow> int" where
  "leapYearsThrough y = y div 4 - y div 100 + y div 400"

definition daysBeforeYear :: "int \<Rightarrow> int" where
  "daysBeforeYear y = 365 * (y - 1970) + (leapYearsThrough (y - 1) - leapYearsThrough 1969)"

definition daysFromCivil :: "int \<Rightarrow> nat \<Rightarrow> int \<Rightarrow> int" where
  "daysFromCivil y m d = daysBeforeYear y + daysBeforeMonth y m + (d - 1)"

text \<open>
  From a day number to the civil date: the year is searched from an estimate, the
  month by walking through the months of that year.
\<close>

function findYear :: "int \<Rightarrow> int \<Rightarrow> int \<times> int" where
  "findYear y n =
     (if n < 0 then findYear (y - 1) (n + daysInYear (y - 1))
      else if daysInYear y \<le> n then findYear (y + 1) (n - daysInYear y)
      else (y, n))"
  by pat_completeness auto
termination
  by (relation "measure (\<lambda>(y, n). if n < 0 then nat (- n) + 366 else nat n)")
     (auto simp: daysInYear_def split: if_splits)

function findMonth :: "int \<Rightarrow> nat \<Rightarrow> int \<Rightarrow> nat \<times> int" where
  "findMonth y m r =
     (if m < 11 \<and> daysInMonth y m \<le> r then findMonth y (Suc m) (r - daysInMonth y m)
      else (m, r))"
  by pat_completeness auto
termination
  by (relation "measure (\<lambda>(y, m, r). 11 - m)") auto

declare findYear.simps [simp del] findMonth.simps [simp del]

definition civilFromDays :: "int \<Rightarrow> int \<times> nat \<times> int" where
  "civilFromDays n =
     (let y0 = 1970 + n div 366;
          (y, dayOfYear) = findYear y0 (n - daysBeforeYear y0);
          (m, r) = findMonth y 0 dayOfYear
      in (y, m, r + 1))"

definition dayOfMonth :: "date \<Rightarrow> int" where
  "dayOfMonth t = (case civilFromDays (dayNumber t) of (y, m, d) \<Rightarrow> d)"

definition daysInMonthOf :: "date \<Rightarrow> int" where
  "daysInMonthOf t = (case civilFromDays (dayNumber t) of (y, m, d) \<Rightarrow> daysInMonth y m)"

text \<open>
  The first day of a month counted from year 0 (\<open>12 * year + month\<close>), and the step
  of \<open>k\<close> months: same time of day, same day of the month, clamped to the last day
  when the target month is shorter.
\<close>

definition monthStart :: "int \<Rightarrow> int" where
  "monthStart M = daysBeforeYear (M div 12) + daysBeforeMonth (M div 12) (nat (M mod 12))"

definition addMonths :: "int \<Rightarrow> date \<Rightarrow> date" where
  "addMonths k t =
     (let (y, m, d) = civilFromDays (dayNumber t);
          total = 12 * y + int m + k;
          y' = total div 12;
          m' = nat (total mod 12);
          d' = min d (daysInMonth y' m')
      in daysFromCivil y' m' d' * msPerDay + timeOfDay t)"

text \<open>\<^verbatim>\<open>Date.UTC(y, mo - 1, d, h, mi, s)\<close>, with the month counted from 1 as in an ISO date.\<close>

definition utc :: "int \<Rightarrow> int \<Rightarrow> int \<Rightarrow> int \<Rightarrow> int \<Rightarrow> int \<Rightarrow> date" where
  "utc y mo d h mi s =
     (((daysFromCivil y (nat (mo - 1)) d * 24 + h) * 60 + mi) * 60 + s) * 1000"

subsection \<open>The two helpers\<close>

text \<open>
  Modelled from the spec: \<^verbatim>\<open>shouldCreateOccurrence\<close> and \<^verbatim>\<open>getNextOccurrenceDate\<close> are
  called by the listing but their bodies are not part of it. They follow the
  algorithm of the specification (section 4.1, steps 3a and 3c, and section 7):

  \<^item> a non-positive or absent interval counts as 1;
  \<^item> daily: every cursor position is a candidate; the cursor advances by
    \<open>interval\<close> days;
  \<^item> weekly: the cursor advances by one day; a day is a candidate when its weekday
    is in \<^verbatim>\<open>daysOfWeek\<close> (the weekday of the start date when \<^verbatim>\<open>daysOfWeek\<close> is empty
    or absent) and the number of whole weeks since the start date is a multiple
    of \<open>interval\<close>;
  \<^item> monthly: a day is a candidate when its day of the month is that of the start
    date, clamped to the length of the month; the cursor advances by
    \<open>interval\<close> months, clamped to the last day of a shorter month.

  The candidate rule refers to the start date of the base event, so the model of
  \<^verbatim>\<open>shouldCreateOccurrence\<close> takes it as its first argument.
\<close>

definition effectiveInterval :: "RecurrencePattern \<Rightarrow> int" where
  "effectiveInterval rec =
     (case interval rec of None \<Rightarrow> 1 | Some i \<Rightarrow> if i \<le> 0 then 1 else i)"

definition shouldCreateOccurrence :: "date \<Rightarrow> date \<Rightarrow> RecurrencePattern \<Rightarrow> bool" where
  "shouldCreateOccurrence anchor cursor rec =
     (case frequency rec of
        DAILY \<Rightarrow> True
      | WEEKLY \<Rightarrow>
          (case daysOfWeek rec of
             None \<Rightarrow> weekdayOf cursor = weekdayOf anchor
           | Some days \<Rightarrow>
               if days = [] then weekdayOf cursor = weekdayOf anchor
               else weekdayOf cursor \<in> set days)
          \<and> ((dayNumber cursor - dayNumber anchor) div 7) mod effectiveInterval rec = 0
      | MONTHLY \<Rightarrow> dayOfMonth cursor = min (dayOfMonth anchor) (daysInMonthOf cursor))"

definition getNextOccurrenceDate :: "date \<Rightarrow> RecurrencePattern \<Rightarrow> date" where
  "getNextOccurrenceDate cursor rec =
     (case frequency rec of
        DAILY \<Rightarrow> cursor + effectiveInterval rec * msPerDay
      | WEEKLY \<Rightarrow> cursor + msPerDay
      | MONTHLY \<Rightarrow> addMonths (effectiveInterval rec) cursor)"

text \<open>\<^verbatim>\<open>expand\<close> of the specification: the listed function with these two helpers.\<close>

definition expand ::
  "nat \<Rightarrow> EventsCalendar \<Rightarrow> date \<Rightarrow> date \<Rightarrow> (error + expansion) option" where
  "expand g baseEvent rangeStart rangeEnd =
     generateRecurringEvents (shouldCreateOccurrence (startDate baseEvent)) getNextOccurrenceDate
       g baseEvent rangeStart rangeEnd"

subsection \<open>Loop invariants\<close>

text \<open>The counter equals the number of emitted occurrences and respects the cap.\<close>

definition countInv :: "int \<Rightarrow> loopState \<Rightarrow> bool" where
  "countInv maxOcc s \<longleftrightarrow>
     occurrenceCount s = int (length (events s)) \<and>
     (events s \<noteq> [] \<longrightarrow> occurrenceCount s \<le> maxOcc)"

text \<open>Every emitted occurrence starts inside the range and the bounds of the rule.\<close>

definition rangeInv :: "date \<Rightarrow> date \<Rightarrow> date \<Rightarrow> date \<Rightarrow> loopState \<Rightarrow> bool" where
  "rangeInv anchor rangeStart rangeEnd maxDate s \<longleftrightarrow>
     anchor \<le> currentDate s \<and>
     (\<forall>occ \<in> set (events s).
        rangeStart \<le> startDate occ \<and> startDate occ \<le> rangeEnd \<and>
        startDate occ \<le> maxDate \<and> anchor \<le> startDate occ)"

text \<open>The emitted occurrences ascend and lie before the cursor.\<close>

definition orderInv :: "loopState \<Rightarrow> bool" where
  "orderInv s \<longleftrightarrow>
     sorted_wrt (<) (map startDate (events s)) \<and>
     (\<forall>occ \<in> set (events s). startDate occ < currentDate s)"

text \<open>
  The base event object is untouched, the ids are the ones drawn since the call
  began, and every emitted occurrence is the copy of the base event at a cursor
  position that was a candidate.
\<close>

definition copyInv ::
  "(date \<Rightarrow> RecurrencePattern \<Rightarrow> bool) \<Rightarrow> (date \<Rightarrow> RecurrencePattern \<Rightarrow> date) \<Rightarrow>
   RecurrencePattern \<Rightarrow> nat \<Rightarrow> EventsCalendar \<Rightarrow> loopState \<Rightarrow> bool" where
  "copyInv should nxt rec g baseEvent s \<longleftrightarrow>
     baseEventObj s = baseEvent \<and>
     objectIds s = g + length (events s) \<and>
     map doc_id (events s) = [g ..< g + length (events s)] \<and>
     (\<exists>k. currentDate s = ((\<lambda>d. nxt d rec) ^^ k) (startDate baseEvent)) \<and>
     (\<forall>occ \<in> set (events s).
        occ = occurrenceEvent baseEvent (doc_id occ) (startDate occ) \<and>
        should (startDate occ) rec \<and>
        (\<exists>k. startDate occ = ((\<lambda>d. nxt d rec) ^^ k) (startDate baseEvent)))"

definition noEvents :: "loopState \<Rightarrow> bool" where
  "noEvents s \<longleftrightarrow> events s = []"

text \<open>Two states of the loop that differ at most in the ids that were drawn.\<close>

definition withoutId :: "Occurrence \<Rightarrow> Occurrence" where
  "withoutId occ = occ\<lparr> doc_id := 0 \<rparr>"

definition sameButIds :: "loopState \<Rightarrow> loopState \<Rightarrow> bool" where
  "sameButIds s s' \<longleftrightarrow>
     currentDate s = currentDate s' \<and> occurrenceCount s = occurrenceCount s' \<and>
     baseEventObj s = baseEventObj s' \<and>
     map withoutId (events s) = map withoutId (events s')"

subsection \<open>Observations and sample events\<close>

text \<open>The start dates of the occurrences a call returns.\<close>

definition startDatesOf :: "(error + expansion) option \<Rightarrow> date list option" where
  "startDatesOf r =
     (case r of Some (Inr x) \<Rightarrow> Some (map startDate (returned x)) | _ \<Rightarrow> None)"

text \<open>
  Two calls with the same arguments, one after the other: the second call finds
  the id generator where the first one left it. The value says whether the two
  returned arrays are equal.
\<close>

definition sameOutputTwice :: "nat \<Rightarrow> EventsCalendar \<Rightarrow> date \<Rightarrow> date \<Rightarrow> bool option" where
  "sameOutputTwice g baseEvent rangeStart rangeEnd =
     (case expand g baseEvent rangeStart rangeEnd of
        Some (Inr x) \<Rightarrow>
          (case expand (objectIdsAfter x) baseEvent rangeStart rangeEnd of
             Some (Inr y) \<Rightarrow> Some (returned x = returned y)
           | _ \<Rightarrow> None)
      | _ \<Rightarrow> None)"

text \<open>
  What a call that returns leaves behind besides its result: whether the base
  event and the id generator are as the call found them.
\<close>

definition leavesNoTrace :: "nat \<Rightarrow> EventsCalendar \<Rightarrow> date \<Rightarrow> date \<Rightarrow> bool option" where
  "leavesNoTrace g baseEvent rangeStart rangeEnd =
     (case expand g baseEvent rangeStart rangeEnd of
        Some (Inr x) \<Rightarrow> Some (baseEventAfter x = baseEvent \<and> objectIdsAfter x = g)
      | _ \<Rightarrow> None)"

text \<open>The weekly example of the README (usage example 1 and section 8).\<close>

definition teamMeetingRule :: RecurrencePattern where
  "teamMeetingRule =
     \<lparr> frequency = WEEKLY, interval = Some 1, daysOfWeek = Some [MONDAY, WEDNESDAY],
       endDate = None, maxOccurrences = Some 20 \<rparr>"

definition teamMeeting :: EventsCalendar where
  "teamMeeting =
     \<lparr> doc_id = 7, userId = 1, title = ''Team Meeting'', description = ''Weekly team sync'',
       location = [], category = ''Meeting'', color = [],
       startDate = utc 2024 1 15 9 0 0, duration = 60,
       recurrence = Some teamMeetingRule, isRecurringInstance = False \<rparr>"

text \<open>The monthly example of the README (usage example 4).\<close>

definition allHandsRule :: RecurrencePattern where
  "allHandsRule =
     \<lparr> frequency = MONTHLY, interval = Some 1, daysOfWeek = None,
       endDate = Some (utc 2024 12 31 23 59 59), maxOccurrences = None \<rparr>"

definition monthlyAllHands :: EventsCalendar where
  "monthlyAllHands =
     \<lparr> doc_id = 8, userId = 1, title = ''Monthly All Hands'', description = [],
       location = [], category = [], color = [],
       startDate = utc 2024 1 1 16 0 0, duration = 120,
       recurrence = Some allHandsRule, isRecurringInstance = False \<rparr>"

definition allHandsExpansion :: expansion where
  "allHandsExpansion =
     \<lparr> returned = [occurrenceEvent monthlyAllHands 100 (utc 2024 1 1 16 0 0),
                   occurrenceEvent monthlyAllHands 101 (utc 2024 2 1 16 0 0),
                   occurrenceEvent monthlyAllHands 102 (utc 2024 3 1 16 0 0)],
       baseEventAfter = monthlyAllHands, objectIdsAfter = 103 \<rparr>"

text \<open>A daily event that is capped at two occurrences.\<close>

definition standupRule :: RecurrencePattern where
  "standupRule =
     \<lparr> frequency = DAILY, interval = Some 1, daysOfWeek = None,
       endDate = None, maxOccurrences = Some 2 \<rparr>"

definition dailyStandup :: EventsCalendar where
  "dailyStandup =
     \<lparr> doc_id = 9, userId = 1, title = ''Daily Standup'', description = [],
       location = [], category = [], color = [],
       startDate = utc 2024 1 1 9 0 0, duration = 15,
       recurrence = Some standupRule, isRecurringInstance = False \<rparr>"

definition standupExpansion :: expansion where
  "standupExpansion =
     \<lparr> returned = [occurrenceEvent dailyStandup 100 (utc 2024 1 3 9 0 0),
                   occurrenceEvent dailyStandup 101 (utc 2024 1 4 9 0 0)],
       baseEventAfter = dailyStandup, objectIdsAfter = 102 \<rparr>"

text \<open>The same daily event without a maximum and without an end date.\<close>

definition openEndedStandup :: EventsCalendar where
  "openEndedStandup =
     dailyStandup\<lparr> recurrence := Some (standupRule\<lparr> maxOccurrences := None \<rparr>) \<rparr>"

section \<open>Lemmas\<close>

subsection \<open>Rules for the loop\<close>

lemma whileLoop_rule_aux:
  assumes run: "whileLoop cond body s = Some t"
  shows "P s \<longrightarrow> (\<forall>s. P s \<longrightarrow> cond s \<longrightarrow> P (body s)) \<longrightarrow> P t \<and> \<not> cond t"
proof (rule whileLoop.raw_induct[where P = "\<lambda>cond body s t. P s \<longrightarrow> (\<forall>s. P s \<longrightarrow> cond s \<longrightarrow> P (body s)) \<longrightarrow> P t \<and> \<not> cond t", OF _ run], intro impI)
  fix loop :: "('a \<Rightarrow> bool) \<Rightarrow> ('a \<Rightarrow> 'a) \<Rightarrow> 'a \<Rightarrow> 'a option" and cond body s t
  assume IH: "\<And>cond body s t. loop cond body s = Some t \<Longrightarrow>
       P s \<longrightarrow> (\<forall>s. P s \<longrightarrow> cond s \<longrightarrow> P (body s)) \<longrightarrow> P t \<and> \<not> cond t"
    and eq: "(if cond s then loop cond body (body s) else Some s) = Some t"
    and init: "P s"
    and step: "\<forall>s. P s \<longrightarrow> cond s \<longrightarrow> P (body s)"
  show "P t \<and> \<not> cond t"
  proof (cases "cond s")
    case True
    with eq init step have "loop cond body (body s) = Some t" "P (body s)" by auto
    with IH[of cond body "body s" t] step show ?thesis by blast
  next
    case False
    with eq init show ?thesis by auto
  qed
qed

lemma whileLoop_rule:
  assumes run: "whileLoop cond body s = Some t"
    and init: "P s"
    and step: "\<And>s. P s \<Longrightarrow> cond s \<Longrightarrow> P (body s)"
  shows "P t \<and> \<not> cond t"
  using whileLoop_rule_aux[OF run, of P] init step by blast

lemma whileLoop_sim_aux:
  assumes run: "whileLoop cond body s = Some t"
  shows "\<forall>s'. R s s' \<longrightarrow> (\<forall>s s'. R s s' \<longrightarrow> (cond s = cond' s') \<and> (cond s \<longrightarrow> R (body s) (body' s')))
    \<longrightarrow> (\<exists>t'. whileLoop cond' body' s' = Some t' \<and> R t t')"
proof (rule whileLoop.raw_induct[where P = "\<lambda>cond body s t. \<forall>s'. R s s' \<longrightarrow> (\<forall>s s'. R s s' \<longrightarrow> (cond s = cond' s') \<and> (cond s \<longrightarrow> R (body s) (body' s')))
    \<longrightarrow> (\<exists>t'. whileLoop cond' body' s' = Some t' \<and> R t t')", OF _ run], intro allI impI)
  fix loop :: "('a \<Rightarrow> bool) \<Rightarrow> ('a \<Rightarrow> 'a) \<Rightarrow> 'a \<Rightarrow> 'a option" and cond body s t s'
  assume IH: "\<And>cond body s t. loop cond body s = Some t \<Longrightarrow>
     \<forall>s'. R s s' \<longrightarrow> (\<forall>s s'. R s s' \<longrightarrow> (cond s = cond' s') \<and> (cond s \<longrightarrow> R (body s) (body' s')))
    \<longrightarrow> (\<exists>t'. whileLoop cond' body' s' = Some t' \<and> R t t')"
    and eq: "(if cond s then loop cond body (body s) else Some s) = Some t"
    and R: "R s s'"
    and sim: "\<forall>s s'. R s s' \<longrightarrow> (cond s = cond' s') \<and> (cond s \<longrightarrow> R (body s) (body' s'))"
  show "\<exists>t'. whileLoop cond' body' s' = Some t' \<and> R t t'"
  proof (cases "cond s")
    case True
    with eq R sim have c': "cond' s'" and R': "R (body s) (body' s')" and l: "loop cond body (body s) = Some t" by auto
    from IH[OF l] R' sim obtain t' where "whileLoop cond' body' (body' s') = Some t'" "R t t'" by blast
    with c' show ?thesis by (subst whileLoop.simps) simp
  next
    case False
    with eq R sim have "\<not> cond' s'" "t = s" by auto
    with R show ?thesis by (subst whileLoop.simps) simp
  qed
qed

lemma whileLoop_sim:
  assumes run: "whileLoop cond body s = Some t"
    and init: "R s s'"
    and sim: "\<forall>s s'. R s s' \<longrightarrow> (cond s = cond' s') \<and> (cond s \<longrightarrow> R (body s) (body' s'))"
  shows "\<exists>t'. whileLoop cond' body' s' = Some t' \<and> R t t'"
  using whileLoop_sim_aux[OF run, of R cond' body'] init sim by blast

lemma whileLoop_terminates:
  fixes m :: "'s \<Rightarrow> nat"
  assumes init: "P s"
    and step: "\<And>s. P s \<Longrightarrow> cond s \<Longrightarrow> P (body s) \<and> m (body s) < m s"
  shows "\<exists>t. whileLoop cond body s = Some t"
  using init
proof (induction "m s" arbitrary: s rule: less_induct)
  case less
  show ?case
  proof (cases "cond s")
    case True
    with less.prems step have "P (body s)" "m (body s) < m s" by auto
    from less.hyps[OF this(2) this(1)] obtain t where "whileLoop cond body (body s) = Some t" ..
    with True show ?thesis by (subst whileLoop.simps) simp
  next
    case False
    then show ?thesis by (subst whileLoop.simps) simp
  qed
qed

lemma generateRecurringEvents_loop:
  assumes "recurrence baseEvent = Some rec"
  shows "generateRecurringEvents should nxt g baseEvent rangeStart rangeEnd = Some (Inr x) \<longleftrightarrow>
     (\<exists>t. whileLoop (loopCond (maxDateOf rec rangeEnd) rangeEnd (maxOccurrencesOf rec))
                     (loopBody should nxt rec rangeStart) (initialState g baseEvent) = Some t
          \<and> x = \<lparr> returned = events t, baseEventAfter = baseEventObj t, objectIdsAfter = objectIds t \<rparr>)"
  using assms
  by (auto simp: generateRecurringEvents_def maxDateOf_def maxOccurrencesOf_def initialState_def Let_def)

lemma loop_result:
  assumes rec: "recurrence baseEvent = Some rec"
    and run: "generateRecurringEvents should nxt g baseEvent rangeStart rangeEnd = Some (Inr x)"
    and init: "P (initialState g baseEvent)"
    and step: "\<And>s. P s \<Longrightarrow> loopCond (maxDateOf rec rangeEnd) rangeEnd (maxOccurrencesOf rec) s
                 \<Longrightarrow> P (loopBody should nxt rec rangeStart s)"
  shows "\<exists>t. P t \<and> returned x = events t \<and> baseEventAfter x = baseEventObj t
            \<and> objectIdsAfter x = objectIds t"
proof -
  from run rec obtain t where
    t: "whileLoop (loopCond (maxDateOf rec rangeEnd) rangeEnd (maxOccurrencesOf rec))
                     (loopBody should nxt rec rangeStart) (initialState g baseEvent) = Some t"
    and x: "x = \<lparr> returned = events t, baseEventAfter = baseEventObj t, objectIdsAfter = objectIds t \<rparr>"
    by (auto simp: generateRecurringEvents_loop)
  from whileLoop_rule[OF t, of P] init step have "P t" by blast
  with x show ?thesis by auto
qed

lemma loop_progress_terminates:
  assumes "\<forall>d. d < nxt d rec"
  shows "\<exists>t. whileLoop (loopCond maxDate rangeEnd maxOcc) (loopBody should nxt rec rangeStart) s = Some t"
proof (rule whileLoop_terminates[where P = "\<lambda>_. True" and m = "\<lambda>s. nat (rangeEnd + 1 - currentDate s)"])
  show True ..
next
  fix s assume "loopCond maxDate rangeEnd maxOcc s"
  then have le: "currentDate s \<le> rangeEnd" by (simp add: loopCond_def)
  have eq: "currentDate (loopBody should nxt rec rangeStart s) = nxt (currentDate s) rec"
    by (simp add: loopBody_def Let_def newObjectId_def)
  from assms have "currentDate s < nxt (currentDate s) rec" by blast
  with le eq show "True \<and> nat (rangeEnd + 1 - currentDate (loopBody should nxt rec rangeStart s))
      < nat (rangeEnd + 1 - currentDate s)" by simp
qed

lemma generateRecurringEvents_terminates:
  assumes progress: "\<forall>d. d < nxt d rec" and rec: "recurrence baseEvent = Some rec"
  shows "\<exists>x. generateRecurringEvents should nxt g baseEvent rangeStart rangeEnd = Some (Inr x)"
proof -
  from loop_progress_terminates[where nxt = nxt and rec = rec, OF progress] obtain t where
    "whileLoop (loopCond (maxDateOf rec rangeEnd) rangeEnd (maxOccurrencesOf rec))
       (loopBody should nxt rec rangeStart) (initialState g baseEvent) = Some t" by blast
  then show ?thesis using rec by (simp add: generateRecurringEvents_loop)
qed

subsection \<open>The invariants are preserved\<close>

lemma countInv_step:
  "countInv maxOcc s \<Longrightarrow> loopCond maxDate rangeEnd maxOcc s \<Longrightarrow> countInv maxOcc (loopBody should nxt rec rangeStart s)"
  by (simp add: countInv_def loopCond_def loopBody_def Let_def newObjectId_def)

lemma rangeInv_step:
  assumes "\<forall>d. d \<le> nxt d rec"
    and "rangeInv anchor rangeStart rangeEnd maxDate s"
    and "loopCond maxDate rangeEnd maxOcc s"
  shows "rangeInv anchor rangeStart rangeEnd maxDate (loopBody should nxt rec rangeStart s)"
proof -
  from assms(1) have "currentDate s \<le> nxt (currentDate s) rec" by blast
  with assms(2,3) show ?thesis
    by (auto simp: rangeInv_def loopCond_def loopBody_def Let_def newObjectId_def occurrenceEvent_def)
qed

lemma orderInv_step:
  assumes "\<forall>d. d < nxt d rec" and "orderInv s"
  shows "orderInv (loopBody should nxt rec rangeStart s)"
proof -
  from assms(1) have "currentDate s < nxt (currentDate s) rec" by blast
  with assms(2) show ?thesis
    by (fastforce simp: orderInv_def loopBody_def Let_def newObjectId_def occurrenceEvent_def
          sorted_wrt_append)
qed

lemma copyInv_step:
  assumes "copyInv should nxt rec g baseEvent s"
  shows "copyInv should nxt rec g baseEvent (loopBody should nxt rec rangeStart s)"
proof -
  from assms obtain k where k: "currentDate s = ((\<lambda>d. nxt d rec) ^^ k) (startDate baseEvent)"
    by (auto simp: copyInv_def)
  then have k': "nxt (currentDate s) rec = ((\<lambda>d. nxt d rec) ^^ Suc k) (startDate baseEvent)"
    by simp
  have cur: "\<exists>k. nxt (currentDate s) rec = ((\<lambda>d. nxt d rec) ^^ k) (startDate baseEvent)"
    using k' by blast
  have here: "\<exists>k. currentDate s = ((\<lambda>d. nxt d rec) ^^ k) (startDate baseEvent)"
    using k by blast
  show ?thesis
  proof (cases "rangeStart \<le> currentDate s \<and> should (currentDate s) rec")
    case False
    with assms cur show ?thesis
      by (auto simp: copyInv_def loopBody_def Let_def)
  next
    case True
    with assms cur here show ?thesis
      by (auto simp: copyInv_def loopBody_def Let_def newObjectId_def occurrenceEvent_def)
  qed
qed

lemma copyInv_result:
  assumes rec: "recurrence baseEvent = Some rec"
    and run: "generateRecurringEvents should nxt g baseEvent rangeStart rangeEnd = Some (Inr x)"
  shows "\<exists>t. copyInv should nxt rec g baseEvent t \<and> returned x = events t \<and>
     baseEventAfter x = baseEventObj t \<and> objectIdsAfter x = objectIds t"
proof -
  have "copyInv should nxt rec g baseEvent (initialState g baseEvent)"
  proof -
    have "startDate baseEvent = ((\<lambda>d. nxt d rec) ^^ 0) (startDate baseEvent)" by simp
    then have "\<exists>k. startDate baseEvent = ((\<lambda>d. nxt d rec) ^^ k) (startDate baseEvent)" by blast
    then show ?thesis by (simp add: copyInv_def initialState_def)
  qed
  from loop_result[OF rec run, of "copyInv should nxt rec g baseEvent", OF this copyInv_step]
  show ?thesis by blast
qed

lemma ids_of_run:
  assumes rec: "recurrence baseEvent = Some rec"
    and run: "generateRecurringEvents should nxt g baseEvent rangeStart rangeEnd = Some (Inr x)"
  shows "map doc_id (returned x) = [g ..< g + length (returned x)] \<and>
         objectIdsAfter x = g + length (returned x)"
proof -
  from copyInv_result[OF rec run] obtain t where
    "copyInv should nxt rec g baseEvent t" "returned x = events t"
    "objectIdsAfter x = objectIds t" by blast
  then show ?thesis by (simp add: copyInv_def)
qed

lemma noEvents_step:
  assumes "rangeEnd < rangeStart" "noEvents s" "loopCond maxDate rangeEnd maxOcc s"
  shows "noEvents (loopBody should nxt rec rangeStart s)"
  using assms by (simp add: noEvents_def loopCond_def loopBody_def Let_def)

lemma sameButIds_step:
  assumes "sameButIds s s'"
  shows "sameButIds (loopBody should nxt rec rangeStart s) (loopBody should nxt rec rangeStart s')"
  using assms
  by (simp add: sameButIds_def loopBody_def Let_def newObjectId_def occurrenceEvent_def withoutId_def)

lemma sameButIds_cond:
  assumes "sameButIds s s'"
  shows "loopCond maxDate rangeEnd maxOcc s = loopCond maxDate rangeEnd maxOcc s'"
  using assms by (simp add: sameButIds_def loopCond_def)

subsection \<open>The calendar\<close>

lemma div_step: 
  fixes y c :: int
  assumes "0 < c"
  shows "y div c - (y - 1) div c = (if y mod c = 0 then 1 else 0)"
proof -
  define q r where "q = y div c" and "r = y mod c"
  have y: "y = q * c + r" and r: "0 \<le> r" "r < c" using assms by (simp_all add: q_def r_def)
  from assms have c: "c \<noteq> 0" by simp
  show ?thesis
  proof (cases "r = 0")
    case True
    have "y - 1 = (q - 1) * c + (c - 1)" using y True by (simp add: algebra_simps)
    then have "(y - 1) div c = ((q - 1) * c + (c - 1)) div c" by (rule arg_cong)
    also have "\<dots> = (q - 1) + (c - 1) div c" by (rule div_mult_self3[OF c])
    also have "(c - 1) div c = 0" using assms by (intro div_pos_pos_trivial) simp_all
    finally show ?thesis using True by (simp add: q_def r_def)
  next
    case False
    have "y - 1 = q * c + (r - 1)" using y by simp
    then have "(y - 1) div c = (q * c + (r - 1)) div c" by (rule arg_cong)
    also have "\<dots> = q + (r - 1) div c" by (rule div_mult_self3[OF c])
    also have "(r - 1) div c = 0" using assms r False by (intro div_pos_pos_trivial) simp_all
    finally show ?thesis using False by (simp add: q_def r_def)
  qed
qed

lemma mod_400_100: "(y::int) mod 400 = 0 \<Longrightarrow> y mod 100 = 0"
proof -
  assume "y mod 400 = 0"
  then have "400 dvd y" by (simp add: dvd_eq_mod_eq_0)
  moreover have "(100::int) dvd 400" by simp
  ultimately have "100 dvd y" using dvd_trans by blast
  then show ?thesis by (simp add: dvd_eq_mod_eq_0)
qed

lemma mod_100_4: "(y::int) mod 100 = 0 \<Longrightarrow> y mod 4 = 0"
proof -
  assume "y mod 100 = 0"
  then have "100 dvd y" by (simp add: dvd_eq_mod_eq_0)
  moreover have "(4::int) dvd 100" by simp
  ultimately have "4 dvd y" using dvd_trans by blast
  then show ?thesis by (simp add: dvd_eq_mod_eq_0)
qed

lemma leapYearsThrough_step:
  "leapYearsThrough y - leapYearsThrough (y - 1) = (if isLeapYear y then 1 else 0)"
proof -
  have alg: "\<And>a b c a' b' c'::int. (a - b + c) - (a' - b' + c') = (a - a') - (b - b') + (c - c')"
    by simp
  have "leapYearsThrough y - leapYearsThrough (y - 1) =
      (y div 4 - (y - 1) div 4) - (y div 100 - (y - 1) div 100) + (y div 400 - (y - 1) div 400)"
    unfolding leapYearsThrough_def by (rule alg)
  also have "\<dots> = (if y mod 4 = 0 then 1 else 0) - (if y mod 100 = 0 then 1 else 0)
      + (if y mod 400 = 0 then 1 else 0)"
    by (simp only: div_step[of 4 y, simplified] div_step[of 100 y, simplified] div_step[of 400 y, simplified])
  also have "\<dots> = (if isLeapYear y then 1 else 0)"
  proof (cases "y mod 400 = 0")
    case True
    with mod_400_100[OF True] mod_100_4[OF mod_400_100[OF True]] show ?thesis
      by (simp add: isLeapYear_def)
  next
    case n400: False
    show ?thesis
    proof (cases "y mod 100 = 0")
      case True
      with n400 mod_100_4[OF True] show ?thesis by (simp add: isLeapYear_def)
    next
      case False
      with n400 show ?thesis by (simp add: isLeapYear_def)
    qed
  qed
  finally show ?thesis .
qed

lemma daysBeforeYear_Suc: "daysBeforeYear (y + 1) = daysBeforeYear y + daysInYear y"
  using leapYearsThrough_step[of y]
  by (simp add: daysBeforeYear_def daysInYear_def split: if_splits)

lemma daysBeforeYear_pred: "daysBeforeYear (y - 1) = daysBeforeYear y - daysInYear (y - 1)"
  using daysBeforeYear_Suc[of "y - 1"] by simp

lemma daysInMonth_bounds: "28 \<le> daysInMonth y m" "daysInMonth y m \<le> 31"
  by (simp_all add: daysInMonth_def)

lemma daysBeforeMonth_numeral:
  "daysBeforeMonth y (numeral k) = daysBeforeMonth y (pred_numeral k) + daysInMonth y (pred_numeral k)"
  by (simp add: numeral_eq_Suc)

lemma daysBeforeMonth_1: "daysBeforeMonth y 1 = daysInMonth y 0"
  using daysBeforeMonth.simps(2)[of y 0] by simp

lemma daysBeforeMonth_11: "daysBeforeMonth y 11 + 31 = daysInYear y"
  by (simp add: daysBeforeMonth_numeral daysBeforeMonth_1 daysInMonth_def daysInYear_def)

lemma findYear_spec:
  "findYear y n = (y', r) \<Longrightarrow>
     0 \<le> r \<and> r < daysInYear y' \<and> daysBeforeYear y' + r = daysBeforeYear y + n"
proof (induction y n rule: findYear.induct)
  case (1 y n)
  show ?case
  proof (cases "n < 0")
    case True
    with "1.prems" have "findYear (y - 1) (n + daysInYear (y - 1)) = (y', r)"
      by (subst (asm) findYear.simps) simp
    from "1.IH"(1)[OF True this] show ?thesis by (simp add: daysBeforeYear_pred)
  next
    case False
    show ?thesis
    proof (cases "daysInYear y \<le> n")
      case True
      with False "1.prems" have "findYear (y + 1) (n - daysInYear y) = (y', r)"
        by (subst (asm) findYear.simps) simp
      from "1.IH"(2)[OF False True this] show ?thesis by (simp add: daysBeforeYear_Suc)
    next
      case n: False
      with False "1.prems" have "y' = y" "r = n"
        by (subst (asm) findYear.simps, simp)+
      with False n show ?thesis by simp
    qed
  qed
qed

lemma findMonth_spec:
  "findMonth y m r = (m', r') \<Longrightarrow> m \<le> 11 \<Longrightarrow> 0 \<le> r \<Longrightarrow>
   daysBeforeMonth y m + r < daysInYear y \<Longrightarrow>
     m' \<le> 11 \<and> 0 \<le> r' \<and> r' < daysInMonth y m' \<and>
     daysBeforeMonth y m' + r' = daysBeforeMonth y m + r"
proof (induction y m r rule: findMonth.induct)
  case (1 y m r)
  show ?case
  proof (cases "m < 11 \<and> daysInMonth y m \<le> r")
    case True
    with "1.prems"(1) have "findMonth y (Suc m) (r - daysInMonth y m) = (m', r')"
      by (subst (asm) findMonth.simps) simp
    from "1.IH"[OF True this] True "1.prems" show ?thesis by simp
  next
    case False
    with "1.prems"(1) have eq: "m' = m" "r' = r"
      by (subst (asm) findMonth.simps, simp)+
    show ?thesis
    proof (cases "m < 11")
      case True
      with False eq "1.prems" show ?thesis by simp
    next
      case m: False
      with "1.prems" have "m = 11" by simp
      with "1.prems" daysBeforeMonth_11[of y] have "r < 31" by simp
      with \<open>m = 11\<close> eq "1.prems" show ?thesis by (simp add: daysInMonth_def)
    qed
  qed
qed

lemma civilFromDays_spec:
  assumes "civilFromDays n = (y, m, d)"
  shows "m \<le> 11 \<and> 1 \<le> d \<and> d \<le> daysInMonth y m \<and> daysFromCivil y m d = n"
proof -
  define y0 where "y0 = 1970 + n div 366"
  obtain y1 doy where fy: "findYear y0 (n - daysBeforeYear y0) = (y1, doy)" by force
  obtain m1 r where fm: "findMonth y1 0 doy = (m1, r)" by force
  from assms fy fm have eq: "y = y1" "m = m1" "d = r + 1"
    by (simp_all add: civilFromDays_def y0_def Let_def)
  from findYear_spec[OF fy] have doy: "0 \<le> doy" "doy < daysInYear y1" "daysBeforeYear y1 + doy = n"
    by simp_all
  from findMonth_spec[OF fm] doy
  have "m1 \<le> 11" "0 \<le> r" "r < daysInMonth y1 m1" "daysBeforeMonth y1 m1 + r = doy" by simp_all
  with eq doy show ?thesis by (simp add: daysFromCivil_def)
qed

lemma month_succ_mod:
  fixes M :: int
  shows "(M + 1) mod 12 = (if M mod 12 = 11 then 0 else M mod 12 + 1)"
proof -
  have "(M + 1) mod 12 = (M mod 12 + 1) mod 12" by (simp add: mod_add_left_eq)
  also have "\<dots> = (if M mod 12 = 11 then 0 else M mod 12 + 1)"
  proof (cases "M mod 12 = 11")
    case True
    then show ?thesis by simp
  next
    case False
    have "0 \<le> M mod 12" "M mod 12 < 12" by simp_all
    with False have "0 \<le> M mod 12 + 1" "M mod 12 + 1 < 12" by simp_all
    then have "(M mod 12 + 1) mod 12 = M mod 12 + 1" by (rule mod_pos_pos_trivial)
    with False show ?thesis by simp
  qed
  finally show ?thesis .
qed

lemma month_succ_div_mod:
  fixes M :: int
  shows "M mod 12 = 11 \<Longrightarrow> (M + 1) div 12 = M div 12 + 1 \<and> (M + 1) mod 12 = 0"
    and "M mod 12 \<noteq> 11 \<Longrightarrow> (M + 1) div 12 = M div 12 \<and> (M + 1) mod 12 = M mod 12 + 1"
  using div_step[of 12 "M + 1"] month_succ_mod[of M] by (simp_all split: if_splits)

lemma monthStart_Suc:
  "monthStart (M + 1) = monthStart M + daysInMonth (M div 12) (nat (M mod 12))"
proof (cases "M mod 12 = 11")
  case True
  with month_succ_div_mod(1)[OF True] daysBeforeMonth_11[of "M div 12"] show ?thesis
    by (simp add: monthStart_def daysBeforeYear_Suc daysInMonth_def)
next
  case False
  have "0 \<le> M mod 12" by simp
  then have "nat (M mod 12 + 1) = Suc (nat (M mod 12))" by simp
  with month_succ_div_mod(2)[OF False] show ?thesis
    by (simp add: monthStart_def)
qed

lemma monthStart_mono: "monthStart (M + 1) \<le> monthStart (M + 1 + int k)"
proof (induction k)
  case 0
  show ?case by simp
next
  case (Suc k)
  have "monthStart (M + 1 + int (Suc k)) = monthStart ((M + 1 + int k) + 1)"
    by (simp add: algebra_simps)
  also have "\<dots> = monthStart (M + 1 + int k)
      + daysInMonth ((M + 1 + int k) div 12) (nat ((M + 1 + int k) mod 12))"
    by (rule monthStart_Suc)
  finally show ?case using Suc daysInMonth_bounds(1)[of "(M + 1 + int k) div 12" "nat ((M + 1 + int k) mod 12)"]
    by linarith
qed

lemma daysFromCivil_monthStart:
  assumes "m \<le> 11"
  shows "daysFromCivil y m d = monthStart (12 * y + int m) + (d - 1)"
proof -
  from assms have "(12 * y + int m) div 12 = y" "(12 * y + int m) mod 12 = int m" by simp_all
  then show ?thesis by (simp add: daysFromCivil_def monthStart_def)
qed

lemma daysFromCivil_monthStart':
  "daysFromCivil (M div 12) (nat (M mod 12)) d = monthStart M + (d - 1)"
  by (simp add: daysFromCivil_def monthStart_def)

lemma time_split: "dayNumber t * msPerDay + timeOfDay t = t"
  by (simp add: dayNumber_def timeOfDay_def)

lemma addMonths_progress:
  assumes k: "1 \<le> k"
  shows "t < addMonths k t"
proof -
  obtain y m d where c: "civilFromDays (dayNumber t) = (y, m, d)" by (metis prod_cases3)
  from civilFromDays_spec[OF c]
  have m: "m \<le> 11" and d: "1 \<le> d" "d \<le> daysInMonth y m" and n: "daysFromCivil y m d = dayNumber t"
    by simp_all
  define M where "M = 12 * y + int m"
  define d' where "d' = min d (daysInMonth ((M + k) div 12) (nat ((M + k) mod 12)))"
  have eq: "addMonths k t = daysFromCivil ((M + k) div 12) (nat ((M + k) mod 12)) d' * msPerDay + timeOfDay t"
    by (simp add: addMonths_def c Let_def M_def d'_def)
  have d'1: "1 \<le> d'" using d(1) daysInMonth_bounds(1)[of "(M + k) div 12" "nat ((M + k) mod 12)"]
    by (simp add: d'_def)
  have Mdm: "M div 12 = y" "nat (M mod 12) = m" using m by (simp_all add: M_def)
  have "dayNumber t = monthStart M + (d - 1)"
    using n daysFromCivil_monthStart[OF m, of y d] by (simp add: M_def)
  also have "\<dots> < monthStart M + daysInMonth y m" using d by simp
  also have "\<dots> = monthStart (M + 1)" using monthStart_Suc[of M] Mdm by simp
  also have "\<dots> \<le> monthStart (M + 1 + int (nat (k - 1)))" by (rule monthStart_mono)
  also have "M + 1 + int (nat (k - 1)) = M + k" using k by simp
  also have "monthStart (M + k) \<le> monthStart (M + k) + (d' - 1)" using d'1 by simp
  also have "\<dots> = daysFromCivil ((M + k) div 12) (nat ((M + k) mod 12)) d'"
    by (simp add: daysFromCivil_monthStart')
  finally have lt: "dayNumber t < daysFromCivil ((M + k) div 12) (nat ((M + k) mod 12)) d'" .
  then have "dayNumber t + 1 \<le> daysFromCivil ((M + k) div 12) (nat ((M + k) mod 12)) d'" by simp
  then have "(dayNumber t + 1) * msPerDay \<le> daysFromCivil ((M + k) div 12) (nat ((M + k) mod 12)) d' * msPerDay"
    by (intro mult_right_mono) (simp_all add: msPerDay_def)
  moreover have "(dayNumber t + 1) * msPerDay + timeOfDay t = t + msPerDay"
    using time_split[of t] by (simp add: algebra_simps)
  moreover have "0 < msPerDay" by (simp add: msPerDay_def)
  ultimately show ?thesis unfolding eq by linarith
qed

subsection \<open>The helpers make progress\<close>

lemma effectiveInterval_pos: "1 \<le> effectiveInterval rec"
  by (simp add: effectiveInterval_def split: option.splits)

lemma getNextOccurrenceDate_progress: "d < getNextOccurrenceDate d rec"
proof (cases "frequency rec")
  case DAILY
  have "0 < effectiveInterval rec * msPerDay"
    using effectiveInterval_pos[of rec] by (simp add: msPerDay_def)
  with DAILY show ?thesis by (simp add: getNextOccurrenceDate_def)
next
  case WEEKLY
  then show ?thesis by (simp add: getNextOccurrenceDate_def msPerDay_def)
next
  case MONTHLY
  with addMonths_progress[OF effectiveInterval_pos[of rec], of d] show ?thesis
    by (simp add: getNextOccurrenceDate_def)
qed

section \<open>The sample events evaluated\<close>

lemma sample_rules:
  "recurrence teamMeeting = Some teamMeetingRule"
  "recurrence monthlyAllHands = Some allHandsRule"
  "recurrence dailyStandup = Some standupRule"
  by (simp_all add: teamMeeting_def monthlyAllHands_def dailyStandup_def)

lemma allHands_expansion:
  "generateRecurringEvents (shouldCreateOccurrence (startDate monthlyAllHands))
     getNextOccurrenceDate 100 monthlyAllHands (utc 2024 1 1 0 0 0) (utc 2024 3 31 0 0 0) =
   Some (Inr allHandsExpansion)"
  by code_simp

lemma standup_expansion:
  "generateRecurringEvents (shouldCreateOccurrence (startDate dailyStandup))
     getNextOccurrenceDate 100 dailyStandup (utc 2024 1 3 0 0 0) (utc 2024 1 10 0 0 0) =
   Some (Inr standupExpansion)"
  by code_simp

lemma january_inverted: "utc 2024 1 20 0 0 0 < utc 2024 1 25 0 0 0"
  by code_simp

lemma january_dates:
  "utc 2024 1 15 9 0 0 = 1705309200000" "utc 2024 1 17 9 0 0 = 1705482000000"
  "utc 2024 1 22 9 0 0 = 1705914000000" "utc 2024 1 24 9 0 0 = 1706086800000"
  "utc 2024 1 29 9 0 0 = 1706518800000" "utc 2024 1 31 9 0 0 = 1706691600000"
  "utc 2024 2 1 0 0 0 = 1706745600000"
  by code_simp+

lemma helpers_progress: "\<forall>d. d < getNextOccurrenceDate d rec"
  by (simp add: getNextOccurrenceDate_progress)

lemma helpers_monotone: "\<forall>d. d \<le> getNextOccurrenceDate d rec"
  using getNextOccurrenceDate_progress[of _ rec] by (simp add: less_imp_le)

text \<open>
  The ceiling of 100 is reached: over the whole of 2024 the open-ended daily
  event yields exactly 100 occurrences.
\<close>

lemma default_cap_reached:
  "map_option length
     (startDatesOf (expand 100 openEndedStandup (utc 2024 1 1 0 0 0) (utc 2024 12 31 0 0 0))) =
   Some 100"
  by code_simp

section \<open>The claims\<close>

text \<open>
  C1. A rule with \<open>maxOccurrences = N\<close> should never yield more than \<open>N\<close> occurrences
  over its whole timeline: candidates before \<open>rangeStart\<close> should count against the
  cap without being emitted. The listed loop increments \<^verbatim>\<open>occurrenceCount\<close> only
  inside \<^verbatim>\<open>if (currentDate >= rangeStart)\<close>, so the count starts again in every
  window. The daily stand-up is capped at two occurrences and starts on
  2024-01-01T09:00Z: the window from January 1 returns January 1 and 2, and the
  window from January 3 returns two more, January 3 and 4.
\<close>

theorem maxOccurrences_restarts_in_later_window:
  "startDatesOf (expand 100 dailyStandup (utc 2024 1 1 0 0 0) (utc 2024 1 10 0 0 0)) =
     Some [utc 2024 1 1 9 0 0, utc 2024 1 2 9 0 0]
   \<and> startDatesOf (expand 100 dailyStandup (utc 2024 1 3 0 0 0) (utc 2024 1 10 0 0 0)) =
     Some [utc 2024 1 3 9 0 0, utc 2024 1 4 9 0 0]"
  by code_simp

text \<open>
  C2. Every returned occurrence starts inside \<open>[rangeStart, rangeEnd]\<close>, not before
  the start date of the base event and, when the rule has an end date, not after
  it. The helper that advances the cursor is a parameter; the bound by the start
  date of the base event needs that it never steps backwards.
\<close>

theorem occurrences_within_bounds:
  assumes rec: "recurrence baseEvent = Some rec"
    and mono: "\<forall>d. d \<le> nxt d rec"
    and run: "generateRecurringEvents should nxt g baseEvent rangeStart rangeEnd = Some (Inr x)"
  shows "\<forall>occ \<in> set (returned x).
           rangeStart \<le> startDate occ \<and> startDate occ \<le> rangeEnd \<and>
           startDate baseEvent \<le> startDate occ \<and>
           (\<forall>e. endDate rec = Some e \<longrightarrow> startDate occ \<le> e)"
proof -
  let ?P = "rangeInv (startDate baseEvent) rangeStart rangeEnd (maxDateOf rec rangeEnd)"
  have "?P (initialState g baseEvent)" by (simp add: rangeInv_def initialState_def)
  moreover have "?P (loopBody should nxt rec rangeStart s)"
    if "?P s" "loopCond (maxDateOf rec rangeEnd) rangeEnd (maxOccurrencesOf rec) s" for s
    using mono that by (rule rangeInv_step)
  ultimately obtain t where "?P t" "returned x = events t"
    using loop_result[OF rec run, of ?P] by blast
  then show ?thesis by (auto simp: rangeInv_def maxDateOf_def)
qed

theorem occurrences_within_bounds_witness:
  "recurrence monthlyAllHands = Some allHandsRule \<and>
   (\<forall>d. d \<le> getNextOccurrenceDate d allHandsRule) \<and>
   generateRecurringEvents (shouldCreateOccurrence (startDate monthlyAllHands))
     getNextOccurrenceDate 100 monthlyAllHands (utc 2024 1 1 0 0 0) (utc 2024 3 31 0 0 0) =
     Some (Inr allHandsExpansion) \<and>
   list_all (\<lambda>occ. utc 2024 1 1 0 0 0 \<le> startDate occ \<and> startDate occ \<le> utc 2024 3 31 0 0 0 \<and>
                  startDate monthlyAllHands \<le> startDate occ \<and>
                  startDate occ \<le> utc 2024 12 31 23 59 59)
     (returned allHandsExpansion)"
proof -
  have e: "endDate allHandsRule = Some (utc 2024 12 31 23 59 59)" by (simp add: allHandsRule_def)
  from occurrences_within_bounds[where nxt = getNextOccurrenceDate and rec = allHandsRule,
      OF sample_rules(2) helpers_monotone allHands_expansion] e
  have "list_all (\<lambda>occ. utc 2024 1 1 0 0 0 \<le> startDate occ \<and> startDate occ \<le> utc 2024 3 31 0 0 0 \<and>
                  startDate monthlyAllHands \<le> startDate occ \<and>
                  startDate occ \<le> utc 2024 12 31 23 59 59)
     (returned allHandsExpansion)"
    by (simp add: list_all_iff)
  with sample_rules(2) helpers_monotone[of allHandsRule] allHands_expansion show ?thesis by simp
qed

text \<open>
  C3. Every returned occurrence is a copy of the base event (user, title,
  description, location, category, color, duration, and the rule itself) with
  four fields of its own: a fresh id, different from the id of the base event
  and from the id of every other returned occurrence; its start date, which is a
  cursor position reached from the start date of the base event and accepted as
  a candidate; \<open>isRecurringInstance = true\<close>; and \<open>parentEventId\<close>, the id of the base
  event. The id of the base event was issued before the call.
\<close>

theorem occurrence_fields:
  assumes rec: "recurrence baseEvent = Some rec"
    and issued: "doc_id baseEvent < g"
    and run: "generateRecurringEvents should nxt g baseEvent rangeStart rangeEnd = Some (Inr x)"
  shows "distinct (map doc_id (returned x)) \<and>
         (\<forall>occ \<in> set (returned x).
            userId occ = userId baseEvent \<and> title occ = title baseEvent \<and>
            description occ = description baseEvent \<and> location occ = location baseEvent \<and>
            category occ = category baseEvent \<and> color occ = color baseEvent \<and>
            duration occ = duration baseEvent \<and> recurrence occ = recurrence baseEvent \<and>
            g \<le> doc_id occ \<and> doc_id occ \<noteq> doc_id baseEvent \<and>
            isRecurringInstance occ \<and> parentEventId occ = doc_id baseEvent \<and>
            should (startDate occ) rec \<and>
            (\<exists>k. startDate occ = ((\<lambda>d. nxt d rec) ^^ k) (startDate baseEvent)))"
proof -
  from copyInv_result[OF rec run] obtain t where
    inv: "copyInv should nxt rec g baseEvent t" and x: "returned x = events t" by blast
  from inv have ids: "map doc_id (events t) = [g ..< g + length (events t)]"
    by (simp add: copyInv_def)
  then have "distinct (map doc_id (events t))" by simp
  moreover have "g \<le> doc_id occ \<and> doc_id occ \<noteq> doc_id baseEvent" if "occ \<in> set (events t)" for occ
  proof -
    from that have "doc_id occ \<in> set (map doc_id (events t))" by simp
    with ids have "g \<le> doc_id occ" by simp
    with issued show ?thesis by simp
  qed
  moreover have "userId occ = userId baseEvent \<and> title occ = title baseEvent \<and>
            description occ = description baseEvent \<and> location occ = location baseEvent \<and>
            category occ = category baseEvent \<and> color occ = color baseEvent \<and>
            duration occ = duration baseEvent \<and> recurrence occ = recurrence baseEvent \<and>
            isRecurringInstance occ \<and> parentEventId occ = doc_id baseEvent"
    if "occ \<in> set (events t)" for occ
  proof -
    define copy where "copy = occurrenceEvent baseEvent (doc_id occ) (startDate occ)"
    from inv that have "occ = copy" by (simp add: copyInv_def copy_def)
    moreover have "userId copy = userId baseEvent \<and> title copy = title baseEvent \<and>
            description copy = description baseEvent \<and> location copy = location baseEvent \<and>
            category copy = category baseEvent \<and> color copy = color baseEvent \<and>
            duration copy = duration baseEvent \<and> recurrence copy = recurrence baseEvent \<and>
            isRecurringInstance copy \<and> parentEventId copy = doc_id baseEvent"
      by (simp add: copy_def occurrenceEvent_def)
    ultimately show ?thesis by simp
  qed
  moreover have "should (startDate occ) rec \<and>
      (\<exists>k. startDate occ = ((\<lambda>d. nxt d rec) ^^ k) (startDate baseEvent))"
    if "occ \<in> set (events t)" for occ
    using inv that by (simp add: copyInv_def)
  ultimately show ?thesis unfolding x by blast
qed

theorem occurrence_fields_witness:
  "recurrence dailyStandup = Some standupRule \<and> doc_id dailyStandup < 100 \<and>
   generateRecurringEvents (shouldCreateOccurrence (startDate dailyStandup))
     getNextOccurrenceDate 100 dailyStandup (utc 2024 1 3 0 0 0) (utc 2024 1 10 0 0 0) =
     Some (Inr standupExpansion) \<and>
   distinct (map doc_id (returned standupExpansion)) \<and>
   list_all (\<lambda>occ. title occ = title dailyStandup \<and> userId occ = userId dailyStandup \<and>
                  duration occ = duration dailyStandup \<and>
                  doc_id occ \<noteq> doc_id dailyStandup \<and> isRecurringInstance occ \<and>
                  parentEventId occ = doc_id dailyStandup)
     (returned standupExpansion)"
proof -
  have issued: "doc_id dailyStandup < 100" by (simp add: dailyStandup_def)
  from occurrence_fields[OF sample_rules(3) issued standup_expansion]
  have "distinct (map doc_id (returned standupExpansion))"
    and "list_all (\<lambda>occ. title occ = title dailyStandup \<and> userId occ = userId dailyStandup \<and>
                  duration occ = duration dailyStandup \<and>
                  doc_id occ \<noteq> doc_id dailyStandup \<and> isRecurringInstance occ \<and>
                  parentEventId occ = doc_id dailyStandup)
     (returned standupExpansion)"
    by (simp_all add: list_all_iff)
  with sample_rules(3) issued standup_expansion show ?thesis by simp
qed

text \<open>
  C4. \<open>expand\<close> returns on every input: with an error value for a base event
  without a rule, and with the occurrences otherwise, also when neither an end
  date nor a maximum is set. The cursor moves forward in every step, and an
  interval that is absent or not positive counts as 1.
\<close>

theorem expand_terminates:
  "(\<exists>r. expand g baseEvent rangeStart rangeEnd = Some r) \<and>
   cursor < getNextOccurrenceDate cursor rec \<and>
   effectiveInterval (rec\<lparr>interval := None\<rparr>) = 1 \<and>
   effectiveInterval (rec\<lparr>interval := Some (- int n)\<rparr>) = 1"
proof (intro conjI)
  show "\<exists>r. expand g baseEvent rangeStart rangeEnd = Some r"
  proof (cases "recurrence baseEvent")
    case None
    then show ?thesis by (simp add: expand_def generateRecurringEvents_def)
  next
    case (Some rule)
    have "\<forall>d. d < getNextOccurrenceDate d rule" by (simp add: getNextOccurrenceDate_progress)
    from generateRecurringEvents_terminates[where nxt = getNextOccurrenceDate and rec = rule,
        OF this Some]
    show ?thesis unfolding expand_def by blast
  qed
next
  show "cursor < getNextOccurrenceDate cursor rec" by (rule getNextOccurrenceDate_progress)
next
  show "effectiveInterval (rec\<lparr>interval := None\<rparr>) = 1" by (simp add: effectiveInterval_def)
next
  show "effectiveInterval (rec\<lparr>interval := Some (- int n)\<rparr>) = 1"
    by (simp add: effectiveInterval_def)
qed

text \<open>
  C5. Two calls with the same arguments should return the same occurrences with
  the same field values. They do not: every occurrence carries a fresh id, so the
  second call returns other ids than the first.
\<close>

theorem repeated_call_counterexample:
  "sameOutputTwice 100 dailyStandup (utc 2024 1 3 0 0 0) (utc 2024 1 10 0 0 0) = Some False"
  by code_simp

text \<open>
  C5, amended. Whatever the state of the id generator, a call with the same base
  event and the same range returns as well, and returns the same occurrences in
  the same order but for their ids. When the second call finds the generator
  where the first call left it (or later), none of its ids is an id of the first
  call, so the two arrays differ as soon as they are not empty.
\<close>

theorem same_occurrences_fresh_ids:
  assumes rec: "recurrence baseEvent = Some rec"
    and run: "generateRecurringEvents should nxt g baseEvent rangeStart rangeEnd = Some (Inr x)"
  shows "\<exists>y. generateRecurringEvents should nxt h baseEvent rangeStart rangeEnd = Some (Inr y) \<and>
             map withoutId (returned y) = map withoutId (returned x) \<and>
             (objectIdsAfter x \<le> h \<longrightarrow>
                set (map doc_id (returned y)) \<inter> set (map doc_id (returned x)) = {} \<and>
                (returned x \<noteq> [] \<longrightarrow> returned y \<noteq> returned x))"
proof -
  let ?cond = "loopCond (maxDateOf rec rangeEnd) rangeEnd (maxOccurrencesOf rec)"
  let ?body = "loopBody should nxt rec rangeStart"
  from run rec obtain t where
    t: "whileLoop ?cond ?body (initialState g baseEvent) = Some t"
    and x: "returned x = events t"
    by (auto simp: generateRecurringEvents_loop)
  have init: "sameButIds (initialState g baseEvent) (initialState h baseEvent)"
    by (simp add: sameButIds_def initialState_def)
  have sim: "\<forall>s s'. sameButIds s s' \<longrightarrow>
      ?cond s = ?cond s' \<and> (?cond s \<longrightarrow> sameButIds (?body s) (?body s'))"
    using sameButIds_cond sameButIds_step by blast
  from whileLoop_sim[OF t init sim] obtain t' where
    t': "whileLoop ?cond ?body (initialState h baseEvent) = Some t'" and same: "sameButIds t t'"
    by blast
  define y where "y = \<lparr> returned = events t', baseEventAfter = baseEventObj t',
                  objectIdsAfter = objectIds t' \<rparr>"
  from t' rec have runy: "generateRecurringEvents should nxt h baseEvent rangeStart rangeEnd =
      Some (Inr y)"
    by (simp add: generateRecurringEvents_loop y_def)
  from same x have eq: "map withoutId (returned y) = map withoutId (returned x)"
    by (simp add: sameButIds_def y_def)
  have fresh: "set (map doc_id (returned y)) \<inter> set (map doc_id (returned x)) = {} \<and>
                (returned x \<noteq> [] \<longrightarrow> returned y \<noteq> returned x)"
    if later: "objectIdsAfter x \<le> h"
  proof -
    from ids_of_run[OF rec run]
    have ix: "map doc_id (returned x) = [g ..< g + length (returned x)]"
      and ax: "objectIdsAfter x = g + length (returned x)" by simp_all
    from ids_of_run[OF rec runy]
    have iy: "map doc_id (returned y) = [h ..< h + length (returned y)]" by simp
    from later ax
    have "set [h ..< h + length (returned y)] \<inter> set [g ..< g + length (returned x)] = {}"
      by auto
    then have disj: "set (map doc_id (returned y)) \<inter> set (map doc_id (returned x)) = {}"
      by (simp only: ix iy)
    moreover have "returned y \<noteq> returned x" if ne: "returned x \<noteq> []"
    proof
      assume "returned y = returned x"
      with disj have "set (map doc_id (returned x)) = {}" by simp
      with ne show False by simp
    qed
    ultimately show ?thesis by blast
  qed
  from runy eq fresh show ?thesis by blast
qed

theorem same_occurrences_fresh_ids_witness:
  "recurrence dailyStandup = Some standupRule \<and>
   generateRecurringEvents (shouldCreateOccurrence (startDate dailyStandup))
     getNextOccurrenceDate 100 dailyStandup (utc 2024 1 3 0 0 0) (utc 2024 1 10 0 0 0) =
     Some (Inr standupExpansion) \<and>
   objectIdsAfter standupExpansion \<le> 102 \<and> returned standupExpansion \<noteq> [] \<and>
   (\<exists>y. generateRecurringEvents (shouldCreateOccurrence (startDate dailyStandup))
          getNextOccurrenceDate 102 dailyStandup (utc 2024 1 3 0 0 0) (utc 2024 1 10 0 0 0) =
          Some (Inr y) \<and>
        map withoutId (returned y) = map withoutId (returned standupExpansion) \<and>
        set (map doc_id (returned y)) \<inter> set (map doc_id (returned standupExpansion)) = {} \<and>
        returned y \<noteq> returned standupExpansion)"
proof -
  have later: "objectIdsAfter standupExpansion \<le> 102" and ne: "returned standupExpansion \<noteq> []"
    by (simp_all add: standupExpansion_def)
  from same_occurrences_fresh_ids[OF sample_rules(3) standup_expansion, of 102] later ne
  have "\<exists>y. generateRecurringEvents (shouldCreateOccurrence (startDate dailyStandup))
          getNextOccurrenceDate 102 dailyStandup (utc 2024 1 3 0 0 0) (utc 2024 1 10 0 0 0) =
          Some (Inr y) \<and>
        map withoutId (returned y) = map withoutId (returned standupExpansion) \<and>
        set (map doc_id (returned y)) \<inter> set (map doc_id (returned standupExpansion)) = {} \<and>
        returned y \<noteq> returned standupExpansion"
    by blast
  with sample_rules(3) standup_expansion later ne show ?thesis by blast
qed

text \<open>
  C6. The call should be pure and free of side effects. It is not: a call that
  returns occurrences leaves the id generator further on than it found it.
\<close>

theorem side_effect_counterexample:
  "leavesNoTrace 100 dailyStandup (utc 2024 1 3 0 0 0) (utc 2024 1 10 0 0 0) = Some False"
  by code_simp

text \<open>
  C6, amended. The call leaves the base event as it found it: the object behind
  the parameter, its rule included, has the same fields after the call as
  before. The one thing the call changes is the id generator, which is exactly
  one id further for every returned occurrence. The loop itself has no write to
  the base event or the rule; the two helpers it hands the rule to only read it.
\<close>

theorem base_event_unchanged:
  assumes rec: "recurrence baseEvent = Some rec"
    and run: "generateRecurringEvents should nxt g baseEvent rangeStart rangeEnd = Some (Inr x)"
  shows "baseEventAfter x = baseEvent \<and> objectIdsAfter x = g + length (returned x)"
proof -
  from copyInv_result[OF rec run] obtain t where
    "copyInv should nxt rec g baseEvent t" "returned x = events t"
    "baseEventAfter x = baseEventObj t" "objectIdsAfter x = objectIds t" by blast
  then show ?thesis by (simp add: copyInv_def)
qed

theorem base_event_unchanged_witness:
  "recurrence dailyStandup = Some standupRule \<and>
   generateRecurringEvents (shouldCreateOccurrence (startDate dailyStandup))
     getNextOccurrenceDate 100 dailyStandup (utc 2024 1 3 0 0 0) (utc 2024 1 10 0 0 0) =
     Some (Inr standupExpansion) \<and>
   baseEventAfter standupExpansion = dailyStandup \<and>
   objectIdsAfter standupExpansion = 100 + length (returned standupExpansion)"
  using base_event_unchanged[OF sample_rules(3) standup_expansion]
    sample_rules(3) standup_expansion
  by simp

text \<open>
  C7. The returned occurrences are a list (so finitely many) in strictly
  ascending order of their start dates. The helper that advances the cursor is a
  parameter; the order needs that it moves the cursor forward.
\<close>

theorem occurrences_ascending:
  assumes rec: "recurrence baseEvent = Some rec"
    and progress: "\<forall>d. d < nxt d rec"
    and run: "generateRecurringEvents should nxt g baseEvent rangeStart rangeEnd = Some (Inr x)"
  shows "sorted_wrt (<) (map startDate (returned x))"
proof -
  have "orderInv (initialState g baseEvent)" by (simp add: orderInv_def initialState_def)
  moreover have "orderInv (loopBody should nxt rec rangeStart s)" if "orderInv s" for s
    using progress that by (rule orderInv_step)
  ultimately obtain t where "orderInv t" "returned x = events t"
    using loop_result[OF rec run, of orderInv] by blast
  then show ?thesis by (simp add: orderInv_def)
qed

theorem occurrences_ascending_witness:
  "recurrence monthlyAllHands = Some allHandsRule \<and>
   (\<forall>d. d < getNextOccurrenceDate d allHandsRule) \<and>
   generateRecurringEvents (shouldCreateOccurrence (startDate monthlyAllHands))
     getNextOccurrenceDate 100 monthlyAllHands (utc 2024 1 1 0 0 0) (utc 2024 3 31 0 0 0) =
     Some (Inr allHandsExpansion) \<and>
   sorted_wrt (<) (map startDate (returned allHandsExpansion))"
  using occurrences_ascending[where nxt = getNextOccurrenceDate and rec = allHandsRule,
      OF sample_rules(2) helpers_progress allHands_expansion]
    sample_rules(2) helpers_progress[of allHandsRule] allHands_expansion
  by simp

text \<open>
  The loop compares instants (\<^verbatim>\<open>currentDate <= rangeEnd\<close>). With the range end of the
  usage example of the README, \<^verbatim>\<open>new Date("2024-01-31")\<close>, which is midnight UTC, the
  occurrence of January 31 at 09:00Z is later than the end of the range and is
  left out, although the README says of this very query that it generates all
  instances within that month.
\<close>

lemma january_midnight_range_end:
  "startDatesOf (expand 100 teamMeeting (utc 2024 1 1 0 0 0) (utc 2024 1 31 0 0 0)) =
     Some [utc 2024 1 15 9 0 0, utc 2024 1 17 9 0 0, utc 2024 1 22 9 0 0,
           utc 2024 1 24 9 0 0, utc 2024 1 29 9 0 0]"
  by code_simp

text \<open>
  C8. The weekly team meeting (Mondays and Wednesdays, from Monday
  2024-01-15T09:00Z, at most 20 occurrences) queried over a range from January 1
  to January 31 that covers the day of January 31 returns exactly six
  occurrences, on January 15, 17, 22, 24, 29 and 31 at 09:00Z: for every range
  start up to the start of the event and every range end on January 31 from
  09:00Z on, whatever the state of the id generator.
\<close>

theorem january_scenario:
  assumes "rangeStart \<le> utc 2024 1 15 9 0 0"
    and "utc 2024 1 31 9 0 0 \<le> rangeEnd"
    and "rangeEnd < utc 2024 2 1 0 0 0"
  shows "startDatesOf (expand g teamMeeting rangeStart rangeEnd) =
     Some [utc 2024 1 15 9 0 0, utc 2024 1 17 9 0 0, utc 2024 1 22 9 0 0,
           utc 2024 1 24 9 0 0, utc 2024 1 29 9 0 0, utc 2024 1 31 9 0 0]"
proof -
  from assms have "rangeStart \<le> 1705309200000" "1706691600000 \<le> rangeEnd"
    "rangeEnd < 1706745600000"
    by (simp_all add: january_dates)
  then show ?thesis
    by (simp add: january_dates teamMeeting_def teamMeetingRule_def expand_def
        generateRecurringEvents_def whileLoop.simps loopCond_def loopBody_def Let_def
        newObjectId_def occurrenceEvent_def shouldCreateOccurrence_def
        getNextOccurrenceDate_def effectiveInterval_def weekdayOf_def dayNumber_def
        msPerDay_def startDatesOf_def)
qed

theorem january_scenario_witness:
  "utc 2024 1 1 0 0 0 \<le> utc 2024 1 15 9 0 0 \<and>
   utc 2024 1 31 9 0 0 \<le> utc 2024 1 31 23 59 59 \<and>
   utc 2024 1 31 23 59 59 < utc 2024 2 1 0 0 0 \<and>
   startDatesOf (expand 100 teamMeeting (utc 2024 1 1 0 0 0) (utc 2024 1 31 23 59 59)) =
     Some [utc 2024 1 15 9 0 0, utc 2024 1 17 9 0 0, utc 2024 1 22 9 0 0,
           utc 2024 1 24 9 0 0, utc 2024 1 29 9 0 0, utc 2024 1 31 9 0 0]"
proof -
  have a: "utc 2024 1 1 0 0 0 \<le> utc 2024 1 15 9 0 0" by code_simp
  have b: "utc 2024 1 31 9 0 0 \<le> utc 2024 1 31 23 59 59" by code_simp
  have c: "utc 2024 1 31 23 59 59 < utc 2024 2 1 0 0 0" by code_simp
  from january_scenario[OF a b c, of 100] a b c show ?thesis by simp
qed

text \<open>
  C9. With \<open>rangeStart > rangeEnd\<close> the call returns, and returns no occurrence
  (and draws no id). The helper that advances the cursor is a parameter; that
  the call returns needs that it moves the cursor forward. In the instance below
  the event starts before the end of the range, so the loop is entered and runs
  until the cursor has passed the end of the range.
\<close>

theorem inverted_range_empty:
  assumes rec: "recurrence baseEvent = Some rec"
    and progress: "\<forall>d. d < nxt d rec"
    and inverted: "rangeEnd < rangeStart"
  shows "generateRecurringEvents should nxt g baseEvent rangeStart rangeEnd =
           Some (Inr \<lparr> returned = [], baseEventAfter = baseEvent, objectIdsAfter = g \<rparr>)"
proof -
  from generateRecurringEvents_terminates[where nxt = nxt and rec = rec, OF progress rec]
  obtain x where
    run: "generateRecurringEvents should nxt g baseEvent rangeStart rangeEnd = Some (Inr x)"
    by blast
  have "noEvents (initialState g baseEvent)" by (simp add: noEvents_def initialState_def)
  moreover have "noEvents (loopBody should nxt rec rangeStart s)"
    if "noEvents s" "loopCond (maxDateOf rec rangeEnd) rangeEnd (maxOccurrencesOf rec) s" for s
    using inverted that by (rule noEvents_step)
  ultimately obtain t where "noEvents t" "returned x = events t"
    using loop_result[OF rec run, of noEvents] by blast
  then have none: "returned x = []" by (simp add: noEvents_def)
  from copyInv_result[OF rec run] obtain t' where
    "copyInv should nxt rec g baseEvent t'" "returned x = events t'"
    "baseEventAfter x = baseEventObj t'" "objectIdsAfter x = objectIds t'" by blast
  with none have "baseEventAfter x = baseEvent" "objectIdsAfter x = g"
    by (simp_all add: copyInv_def)
  with none have "x = \<lparr> returned = [], baseEventAfter = baseEvent, objectIdsAfter = g \<rparr>"
    by simp
  with run show ?thesis by simp
qed

theorem inverted_range_empty_witness:
  "recurrence teamMeeting = Some teamMeetingRule \<and>
   (\<forall>d. d < getNextOccurrenceDate d teamMeetingRule) \<and>
   utc 2024 1 20 0 0 0 < utc 2024 1 25 0 0 0 \<and>
   loopCond (maxDateOf teamMeetingRule (utc 2024 1 20 0 0 0)) (utc 2024 1 20 0 0 0)
     (maxOccurrencesOf teamMeetingRule) (initialState 100 teamMeeting) \<and>
   generateRecurringEvents (shouldCreateOccurrence (startDate teamMeeting))
     getNextOccurrenceDate 100 teamMeeting (utc 2024 1 25 0 0 0) (utc 2024 1 20 0 0 0) =
     Some (Inr \<lparr> returned = [], baseEventAfter = teamMeeting, objectIdsAfter = 100 \<rparr>)"
proof -
  have entered: "loopCond (maxDateOf teamMeetingRule (utc 2024 1 20 0 0 0)) (utc 2024 1 20 0 0 0)
     (maxOccurrencesOf teamMeetingRule) (initialState 100 teamMeeting)"
    by code_simp
  from inverted_range_empty[where nxt = getNextOccurrenceDate and rec = teamMeetingRule,
      OF sample_rules(1) helpers_progress january_inverted]
    sample_rules(1) helpers_progress[of teamMeetingRule] january_inverted entered
  show ?thesis by simp
qed

text \<open>
  C10. When the rule has no \<open>maxOccurrences\<close>, or has 0, a call returns at most 100
  occurrences: \<^verbatim>\<open>recurrence.maxOccurrences || 100\<close>.
\<close>

theorem default_cap:
  assumes rec: "recurrence baseEvent = Some rec"
    and unset: "maxOccurrences rec = None \<or> maxOccurrences rec = Some 0"
    and run: "generateRecurringEvents should nxt g baseEvent rangeStart rangeEnd = Some (Inr x)"
  shows "length (returned x) \<le> 100"
proof -
  from unset have m: "maxOccurrencesOf rec = 100" by (auto simp: maxOccurrencesOf_def)
  have "countInv 100 (initialState g baseEvent)" by (simp add: countInv_def initialState_def)
  moreover have "countInv 100 (loopBody should nxt rec rangeStart s)"
    if "countInv 100 s" "loopCond (maxDateOf rec rangeEnd) rangeEnd (maxOccurrencesOf rec) s" for s
    using that unfolding m by (rule countInv_step)
  ultimately obtain t where "countInv 100 t" "returned x = events t"
    using loop_result[OF rec run, of "countInv 100"] by blast
  then show ?thesis by (cases "events t = []") (auto simp: countInv_def)
qed

theorem default_cap_witness:
  "recurrence monthlyAllHands = Some allHandsRule \<and>
   (maxOccurrences allHandsRule = None \<or> maxOccurrences allHandsRule = Some 0) \<and>
   generateRecurringEvents (shouldCreateOccurrence (startDate monthlyAllHands))
     getNextOccurrenceDate 100 monthlyAllHands (utc 2024 1 1 0 0 0) (utc 2024 3 31 0 0 0) =
     Some (Inr allHandsExpansion) \<and>
   length (returned allHandsExpansion) \<le> 100"
proof -
  have unset: "maxOccurrences allHandsRule = None \<or> maxOccurrences allHandsRule = Some 0"
    by (simp add: allHandsRule_def)
  from default_cap[OF sample_rules(2) unset allHands_expansion]
    sample_rules(2) unset allHands_expansion
  show ?thesis by simp
qed

end
